theory Spec2Isabelle
  imports Main "HOL-Library.Word" "HOL-Library.Sublist"
begin

section \<open>SecureVaultDB: the storage model\<close>

text \<open>
  The contract \<^verbatim>\<open>SecureVaultDB\<close> (Solidity 0.8.27) keeps six storage variables. An
  \<^verbatim>\<open>address\<close> is a 160-bit word, a \<^verbatim>\<open>uint256\<close> a 256-bit word. The encrypted types
  \<^verbatim>\<open>eaddress\<close>, \<^verbatim>\<open>euint32\<close>, \<^verbatim>\<open>externalEaddress\<close> and \<^verbatim>\<open>externalEuint32\<close> are
  \<^verbatim>\<open>bytes32\<close> handles. A Solidity mapping is a total function whose unwritten slots hold
  the zero value; a dynamic storage array is a list and \<^verbatim>\<open>push\<close> appends to it.
\<close>

type_synonym address = "160 word"
type_synonym uint256 = "256 word"
type_synonym bytes32 = "256 word"
type_synonym bytes = "8 word list"

record Database =
  owner :: address
  name :: string
  encryptedAccessAddress :: bytes32
  createdAt :: uint256

datatype event =
    DatabaseCreated uint256 address string
  | RecordStored uint256 uint256
  | AccessGranted uint256 address

text \<open>
  The reverts of the contract, under the names the specification gives them:
  \<^item> \<open>NotFound\<close>: \<^verbatim>\<open>require(..., "Database not found")\<close> of the modifier \<^verbatim>\<open>databaseExists\<close>;
  \<^item> \<open>EmptyName\<close>: \<^verbatim>\<open>require(bytes(name).length > 0, "Name required")\<close>;
  \<^item> \<open>InvalidIdentity\<close>: \<^verbatim>\<open>require(user != address(0), "Invalid user")\<close>;
  \<^item> \<open>NotOwner\<close>: \<^verbatim>\<open>require(... == msg.sender, "Only owner")\<close>;
  \<^item> \<open>Unauthorized\<close>: \<^verbatim>\<open>require(_isAuthorized[..][msg.sender], "Not authorized")\<close>;
  \<^item> \<open>InvalidCiphertext\<close>: \<^verbatim>\<open>FHE.fromExternal\<close> reverts;
  \<^item> \<open>IndexOutOfRange\<close>: \<^verbatim>\<open>require(index < ..., "Invalid index")\<close>;
  \<^item> \<open>Overflow\<close>: the checked increment \<^verbatim>\<open>++_nextDatabaseId\<close> panics at \<open>2 ^ 256 - 1\<close>.
\<close>

datatype error =
    NotFound | EmptyName | InvalidIdentity | NotOwner | Unauthorized
  | InvalidCiphertext | IndexOutOfRange | Overflow

text \<open>
  The storage of the contract. The fields carry the source's names without the leading
  underscore; \<^verbatim>\<open>_isAuthorized\<close> is \<open>isAuthorizedMap\<close>, since \<open>isAuthorized\<close> is the
  name of the view function. Two components stand for what the contract writes outside
  its own storage: \<open>acl\<close>, the pairs (handle, account) for which decryption visibility
  has been granted, and \<open>events\<close>, the log of emitted events, oldest first.
\<close>

record vault =
  nextDatabaseId :: uint256
  databases :: "uint256 \<Rightarrow> Database"
  databasesByOwner :: "address \<Rightarrow> uint256 list"
  records :: "uint256 \<Rightarrow> bytes32 list"
  authorizedUsers :: "uint256 \<Rightarrow> address list"
  isAuthorizedMap :: "uint256 \<Rightarrow> address \<Rightarrow> bool"
  acl :: "(bytes32 \<times> address) set"
  events :: "event list"

text \<open>The storage of a freshly deployed contract: every slot is zero.\<close>

definition init :: vault where
  "init = \<lparr> nextDatabaseId = 0,
            databases = (\<lambda>_. \<lparr> owner = 0, name = [], encryptedAccessAddress = 0, createdAt = 0 \<rparr>),
            databasesByOwner = (\<lambda>_. []),
            records = (\<lambda>_. []),
            authorizedUsers = (\<lambda>_. []),
            isAuthorizedMap = (\<lambda>_ _. False),
            acl = {},
            events = [] \<rparr>"

subsection \<open>The external encryption library\<close>

text \<open>
  The library \<^verbatim>\<open>@fhevm/solidity/lib/FHE.sol\<close> is not part of the repository. What the
  contract needs of it is taken as a parameter: the two overloads of
  \<^verbatim>\<open>FHE.fromExternal\<close> (the caller, the external handle and the proof give a handle, or
  \<open>None\<close> when the call reverts), \<^verbatim>\<open>FHE.isInitialized\<close>, and the contract's own
  address \<^verbatim>\<open>address(this)\<close>, the account \<^verbatim>\<open>FHE.allowThis\<close> grants to.
\<close>

record fhe =
  fromExternalEaddress :: "address \<Rightarrow> bytes32 \<Rightarrow> bytes \<Rightarrow> bytes32 option"
  fromExternalEuint32 :: "address \<Rightarrow> bytes32 \<Rightarrow> bytes \<Rightarrow> bytes32 option"
  isInitialized :: "bytes32 \<Rightarrow> bool"
  this :: address

text \<open>
  Modelled from the spec: \<^verbatim>\<open>FHE.allow\<close> of the external library, the specification's
  \<^verbatim>\<open>grant(handle, identity)\<close>, which extends decryption eligibility over the handle to
  the identity.
\<close>

definition allow :: "bytes32 \<Rightarrow> address \<Rightarrow> vault \<Rightarrow> vault" where
  "allow h a s = s\<lparr> acl := insert (h, a) (acl s) \<rparr>"

text \<open>
  Modelled from the spec: \<^verbatim>\<open>FHE.allowThis\<close> of the external library, the
  specification's \<^verbatim>\<open>grantSelf(handle)\<close>, which lets the store itself read the handle.
\<close>

definition allowThis :: "fhe \<Rightarrow> bytes32 \<Rightarrow> vault \<Rightarrow> vault" where
  "allowThis F h s = allow h (this F) s"

subsection \<open>The modifier and the three mutating functions\<close>

definition databaseExists :: "vault \<Rightarrow> uint256 \<Rightarrow> bool" where
  "databaseExists s databaseId \<longleftrightarrow> owner (databases s databaseId) \<noteq> 0"

text \<open>
  \<^verbatim>\<open>createDatabase\<close>, called by \<open>sender\<close> in a block with timestamp \<open>timestamp\<close>.
  A revert is \<open>Inl\<close>; a successful call returns the new id and the new storage.
\<close>

definition createDatabase ::
  "fhe \<Rightarrow> address \<Rightarrow> uint256 \<Rightarrow> string \<Rightarrow> bytes32 \<Rightarrow> bytes \<Rightarrow> vault \<Rightarrow> error + (uint256 \<times> vault)" where
  "createDatabase F sender timestamp nm encryptedAddress addressProof s =
    (if \<not> 0 < length nm then Inl EmptyName
     else case fromExternalEaddress F sender encryptedAddress addressProof of
       None \<Rightarrow> Inl InvalidCiphertext
     | Some storedAddress \<Rightarrow>
         if nextDatabaseId s = - 1 then Inl Overflow
         else
           let databaseId = nextDatabaseId s + 1;
               s1 = s\<lparr> nextDatabaseId := databaseId \<rparr>;
               s2 = s1\<lparr> databases := (databases s1)(databaseId :=
                      (databases s1 databaseId)\<lparr> owner := sender, name := nm,
                         encryptedAccessAddress := storedAddress, createdAt := timestamp \<rparr>) \<rparr>;
               s3 = s2\<lparr> databasesByOwner := (databasesByOwner s2)(sender :=
                      databasesByOwner s2 sender @ [databaseId]) \<rparr>;
               s4 = s3\<lparr> isAuthorizedMap := (isAuthorizedMap s3)(databaseId :=
                      (isAuthorizedMap s3 databaseId)(sender := True)) \<rparr>;
               s5 = s4\<lparr> authorizedUsers := (authorizedUsers s4)(databaseId :=
                      authorizedUsers s4 databaseId @ [sender]) \<rparr>;
               s6 = allowThis F storedAddress s5;
               s7 = allow storedAddress sender s6;
               s8 = s7\<lparr> events := events s7 @ [DatabaseCreated databaseId sender nm] \<rparr>
           in Inr (databaseId, s8))"

text \<open>The loop of \<^verbatim>\<open>grantAccess\<close> over the stored records, from index 0 upwards.\<close>

fun allowRecords :: "bytes32 list \<Rightarrow> address \<Rightarrow> vault \<Rightarrow> vault" where
  "allowRecords [] user s = s"
| "allowRecords (h # stored) user s = allowRecords stored user (allow h user s)"

definition grantAccess :: "fhe \<Rightarrow> address \<Rightarrow> uint256 \<Rightarrow> address \<Rightarrow> vault \<Rightarrow> error + vault" where
  "grantAccess F sender databaseId user s =
    (if \<not> databaseExists s databaseId then Inl NotFound
     else if \<not> user \<noteq> 0 then Inl InvalidIdentity
     else if \<not> owner (databases s databaseId) = sender then Inl NotOwner
     else if isAuthorizedMap s databaseId user then Inr s
     else
       let s1 = s\<lparr> isAuthorizedMap := (isAuthorizedMap s)(databaseId :=
                  (isAuthorizedMap s databaseId)(user := True)) \<rparr>;
           s2 = s1\<lparr> authorizedUsers := (authorizedUsers s1)(databaseId :=
                  authorizedUsers s1 databaseId @ [user]) \<rparr>;
           encryptedAddress = encryptedAccessAddress (databases s2 databaseId);
           s3 = (if isInitialized F encryptedAddress then allow encryptedAddress user s2 else s2);
           s4 = allowRecords (records s3 databaseId) user s3;
           s5 = s4\<lparr> events := events s4 @ [AccessGranted databaseId user] \<rparr>
       in Inr s5)"

text \<open>The loop of \<^verbatim>\<open>storeValue\<close> over the authorized users, from index 0 upwards.\<close>

fun allowShared :: "bytes32 \<Rightarrow> address list \<Rightarrow> vault \<Rightarrow> vault" where
  "allowShared v [] s = s"
| "allowShared v (u # shared) s = allowShared v shared (allow v u s)"

definition storeValue :: "fhe \<Rightarrow> address \<Rightarrow> uint256 \<Rightarrow> bytes32 \<Rightarrow> bytes \<Rightarrow> vault \<Rightarrow> error + vault" where
  "storeValue F sender databaseId encryptedValue valueProof s =
    (if \<not> databaseExists s databaseId then Inl NotFound
     else if \<not> isAuthorizedMap s databaseId sender then Inl Unauthorized
     else case fromExternalEuint32 F sender encryptedValue valueProof of
       None \<Rightarrow> Inl InvalidCiphertext
     | Some v \<Rightarrow>
         let s1 = s\<lparr> records := (records s)(databaseId := records s databaseId @ [v]) \<rparr>;
             s2 = allowThis F v s1;
             owner' = owner (databases s2 databaseId);
             s3 = allow v owner' s2;
             s4 = allowShared v (authorizedUsers s3 databaseId) s3;
             s5 = s4\<lparr> events := events s4 @
                    [RecordStored databaseId (of_nat (length (records s4 databaseId)) - 1)] \<rparr>
         in Inr s5)"

subsection \<open>The view functions\<close>

definition getDatabase ::
  "vault \<Rightarrow> uint256 \<Rightarrow> error + (string \<times> address \<times> bytes32 \<times> uint256 \<times> uint256 \<times> address list)" where
  "getDatabase s databaseId =
    (if \<not> databaseExists s databaseId then Inl NotFound
     else let db = databases s databaseId
          in Inr (name db, owner db, encryptedAccessAddress db, createdAt db,
                  of_nat (length (records s databaseId)), authorizedUsers s databaseId))"

definition getEncryptedAddress :: "vault \<Rightarrow> uint256 \<Rightarrow> error + bytes32" where
  "getEncryptedAddress s databaseId =
    (if \<not> databaseExists s databaseId then Inl NotFound
     else Inr (encryptedAccessAddress (databases s databaseId)))"

definition getEncryptedRecords :: "vault \<Rightarrow> uint256 \<Rightarrow> error + bytes32 list" where
  "getEncryptedRecords s databaseId =
    (if \<not> databaseExists s databaseId then Inl NotFound
     else let stored = records s databaseId
          in Inr (map (\<lambda>i. stored ! i) [0 ..< length stored]))"

definition getEncryptedRecord :: "vault \<Rightarrow> uint256 \<Rightarrow> uint256 \<Rightarrow> error + bytes32" where
  "getEncryptedRecord s databaseId index =
    (if \<not> databaseExists s databaseId then Inl NotFound
     else if \<not> unat index < length (records s databaseId) then Inl IndexOutOfRange
     else Inr (records s databaseId ! unat index))"

definition isAuthorized :: "vault \<Rightarrow> uint256 \<Rightarrow> address \<Rightarrow> error + bool" where
  "isAuthorized s databaseId user =
    (if \<not> databaseExists s databaseId then Inl NotFound
     else Inr (isAuthorizedMap s databaseId user))"

definition databaseCount :: "vault \<Rightarrow> uint256" where
  "databaseCount s = nextDatabaseId s"

definition getDatabasesByOwner :: "vault \<Rightarrow> address \<Rightarrow> uint256 list" where
  "getDatabasesByOwner s ownerAddress = databasesByOwner s ownerAddress"

subsection \<open>Transactions\<close>

text \<open>
  A transaction is one external call of a mutating function. When the call reverts the
  EVM discards every write of the call, so the storage after a reverted transaction is
  the storage before it.
\<close>

datatype call =
    CreateDatabase address uint256 string bytes32 bytes
  | GrantAccess address uint256 address
  | StoreValue address uint256 bytes32 bytes

datatype outcome = Reverted error | Created uint256 | Done

fun transact :: "fhe \<Rightarrow> call \<Rightarrow> vault \<Rightarrow> outcome \<times> vault" where
  "transact F (CreateDatabase sender timestamp nm encryptedAddress addressProof) s =
    (case createDatabase F sender timestamp nm encryptedAddress addressProof s of
       Inl e \<Rightarrow> (Reverted e, s)
     | Inr (databaseId, s') \<Rightarrow> (Created databaseId, s'))"
| "transact F (GrantAccess sender databaseId user) s =
    (case grantAccess F sender databaseId user s of
       Inl e \<Rightarrow> (Reverted e, s)
     | Inr s' \<Rightarrow> (Done, s'))"
| "transact F (StoreValue sender databaseId encryptedValue valueProof) s =
    (case storeValue F sender databaseId encryptedValue valueProof s of
       Inl e \<Rightarrow> (Reverted e, s)
     | Inr s' \<Rightarrow> (Done, s'))"

text \<open>The storage after a sequence of transactions, applied in order.\<close>

fun run :: "fhe \<Rightarrow> call list \<Rightarrow> vault \<Rightarrow> vault" where
  "run F [] s = s"
| "run F (c # cs) s = run F cs (snd (transact F c s))"

text \<open>The ids returned by the successful \<^verbatim>\<open>createDatabase\<close> calls of a sequence, in order.\<close>

fun createdIds :: "fhe \<Rightarrow> call list \<Rightarrow> vault \<Rightarrow> uint256 list" where
  "createdIds F [] s = []"
| "createdIds F (c # cs) s =
    (case transact F c s of
       (Created databaseId, s') \<Rightarrow> databaseId # createdIds F cs s'
     | (_, s') \<Rightarrow> createdIds F cs s')"

text \<open>
  A library instance for concrete evaluation: it accepts a payload exactly when the proof
  is non-empty and then returns the external handle itself; a handle is initialized when
  it is not zero; the contract lives at address \<open>0xC0\<close>.
\<close>

definition demoFHE :: fhe where
  "demoFHE = \<lparr> fromExternalEaddress = (\<lambda>_ h p. if p = [] then None else Some h),
               fromExternalEuint32 = (\<lambda>_ h p. if p = [] then None else Some h),
               isInitialized = (\<lambda>h. h \<noteq> 0),
               this = 0xC0 \<rparr>"

subsection \<open>The invariant of the storage\<close>

text \<open>
  What holds of the storage after any sequence of transactions on a fresh contract:
  the id 0 and the ids above the counter are untouched; the membership map and the list
  of authorized users of a database hold the same accounts; no account is listed twice;
  the owner of an existing database is listed and the zero address is not.
\<close>

definition consistent :: "vault \<Rightarrow> bool" where
  "consistent s \<longleftrightarrow>
     (\<forall>i. i = 0 \<or> nextDatabaseId s < i \<longrightarrow>
        owner (databases s i) = 0 \<and> authorizedUsers s i = [])
   \<and> (\<forall>i u. isAuthorizedMap s i u \<longleftrightarrow> u \<in> set (authorizedUsers s i))
   \<and> (\<forall>i. distinct (authorizedUsers s i))
   \<and> (\<forall>i. databaseExists s i \<longrightarrow>
        owner (databases s i) \<in> set (authorizedUsers s i) \<and> 0 \<notin> set (authorizedUsers s i))"

section \<open>Unfolding the definitions\<close>

lemmas vault_defs = init_def demoFHE_def databaseExists_def createDatabase_def grantAccess_def
  storeValue_def allow_def allowThis_def Let_def

lemmas view_defs = isAuthorized_def getEncryptedAddress_def getEncryptedRecords_def
  getEncryptedRecord_def getDatabase_def databaseCount_def getDatabasesByOwner_def

section \<open>The successful calls in closed form\<close>

text \<open>Each loop only adds to the visibility grants.\<close>

lemma allowRecords_eq:
  "allowRecords stored user s = s\<lparr> acl := acl s \<union> (\<lambda>h. (h, user)) ` set stored \<rparr>"
  by (induction stored arbitrary: s) (auto simp: allow_def)

lemma allowShared_eq:
  "allowShared v shared s = s\<lparr> acl := acl s \<union> (\<lambda>u. (v, u)) ` set shared \<rparr>"
  by (induction shared arbitrary: s) (auto simp: allow_def)

text \<open>What a successful call has checked, and the storage it leaves.\<close>

lemma createDatabase_Inr:
  assumes "createDatabase F sender timestamp nm encryptedAddress addressProof s = Inr (i, s')"
  obtains storedAddress where
    "nm \<noteq> []"
    "fromExternalEaddress F sender encryptedAddress addressProof = Some storedAddress"
    "nextDatabaseId s \<noteq> - 1"
    "i = nextDatabaseId s + 1"
    "s' = s\<lparr> nextDatabaseId := i,
            databases := (databases s)(i := (databases s i)\<lparr> owner := sender, name := nm,
               encryptedAccessAddress := storedAddress, createdAt := timestamp \<rparr>),
            databasesByOwner := (databasesByOwner s)(sender := databasesByOwner s sender @ [i]),
            isAuthorizedMap := (isAuthorizedMap s)(i := (isAuthorizedMap s i)(sender := True)),
            authorizedUsers := (authorizedUsers s)(i := authorizedUsers s i @ [sender]),
            acl := insert (storedAddress, sender) (insert (storedAddress, this F) (acl s)),
            events := events s @ [DatabaseCreated i sender nm] \<rparr>"
  using assms
  by (auto simp: createDatabase_def Let_def allow_def allowThis_def
      split: if_splits option.splits)

lemma grantAccess_Inr:
  assumes "grantAccess F sender databaseId user s = Inr s'"
  shows "databaseExists s databaseId \<and> user \<noteq> 0 \<and> owner (databases s databaseId) = sender
    \<and> (if isAuthorizedMap s databaseId user then s' = s
        else s' = s\<lparr> isAuthorizedMap := (isAuthorizedMap s)(databaseId :=
                      (isAuthorizedMap s databaseId)(user := True)),
                    authorizedUsers := (authorizedUsers s)(databaseId :=
                      authorizedUsers s databaseId @ [user]),
                    acl := (if isInitialized F (encryptedAccessAddress (databases s databaseId))
                            then insert (encryptedAccessAddress (databases s databaseId), user) (acl s)
                            else acl s)
                          \<union> (\<lambda>h. (h, user)) ` set (records s databaseId),
                    events := events s @ [AccessGranted databaseId user] \<rparr>)"
  using assms
  by (auto simp: grantAccess_def Let_def allow_def allowRecords_eq split: if_splits)

lemma storeValue_Inr:
  assumes "storeValue F sender databaseId encryptedValue valueProof s = Inr s'"
  obtains v where
    "databaseExists s databaseId"
    "isAuthorizedMap s databaseId sender"
    "fromExternalEuint32 F sender encryptedValue valueProof = Some v"
    "s' = s\<lparr> records := (records s)(databaseId := records s databaseId @ [v]),
            acl := insert (v, owner (databases s databaseId)) (insert (v, this F) (acl s))
                   \<union> (\<lambda>u. (v, u)) ` set (authorizedUsers s databaseId),
            events := events s @ [RecordStored databaseId (of_nat (length (records s databaseId)))] \<rparr>"
  using assms
  by (auto simp: storeValue_def Let_def allow_def allowThis_def allowShared_eq
      split: if_splits option.splits)

section \<open>The invariant holds after every sequence of transactions\<close>

lemma word_less_succ: "n \<noteq> - 1 \<Longrightarrow> n < n + 1" for n :: "'a::len word"
  using inc_less_eq_self_iff_eq [of n] by (simp add: not_le)

lemma succ_neq_0: "n \<noteq> - 1 \<Longrightarrow> n + 1 \<noteq> 0" for n :: "'a::len word"
  using max_word_wrap [of n] by blast

lemma unat_succ: "n \<noteq> - 1 \<Longrightarrow> unat (n + 1) = Suc (unat n)" for n :: "'a::len word"
  using unatSuc [of n] succ_neq_0 [of n] by (simp add: add.commute)

lemma consistent_init: "consistent init"
  by (simp add: consistent_def init_def databaseExists_def)

lemma fresh_id:
  assumes "consistent s" and "nextDatabaseId s \<noteq> - 1"
  shows "owner (databases s (nextDatabaseId s + 1)) = 0"
    and "authorizedUsers s (nextDatabaseId s + 1) = []"
    and "\<not> isAuthorizedMap s (nextDatabaseId s + 1) u"
  using assms word_less_succ [of "nextDatabaseId s"] by (auto simp: consistent_def)

lemma existing_not_fresh:
  assumes "consistent s" and "databaseExists s d" and "nextDatabaseId s \<noteq> - 1"
  shows "d \<noteq> nextDatabaseId s + 1"
  using assms fresh_id(1) [of s] by (auto simp: databaseExists_def)

lemma consistent_createDatabase:
  assumes "consistent s"
    and "createDatabase F sender timestamp nm encryptedAddress addressProof s = Inr (i, s')"
  shows "consistent s'"
proof -
  from assms(2) obtain storedAddress where
    ne: "nextDatabaseId s \<noteq> - 1" and i: "i = nextDatabaseId s + 1" and
    s': "s' = s\<lparr> nextDatabaseId := i,
            databases := (databases s)(i := (databases s i)\<lparr> owner := sender, name := nm,
               encryptedAccessAddress := storedAddress, createdAt := timestamp \<rparr>),
            databasesByOwner := (databasesByOwner s)(sender := databasesByOwner s sender @ [i]),
            isAuthorizedMap := (isAuthorizedMap s)(i := (isAuthorizedMap s i)(sender := True)),
            authorizedUsers := (authorizedUsers s)(i := authorizedUsers s i @ [sender]),
            acl := insert (storedAddress, sender) (insert (storedAddress, this F) (acl s)),
            events := events s @ [DatabaseCreated i sender nm] \<rparr>"
    by (rule createDatabase_Inr)
  have lt: "nextDatabaseId s < i" and nz: "i \<noteq> 0"
    using ne i word_less_succ succ_neq_0 by auto
  have fresh: "authorizedUsers s i = []" "\<And>u. \<not> isAuthorizedMap s i u"
    using fresh_id [OF assms(1) ne] i by auto
  have a: "\<forall>j. j = 0 \<or> nextDatabaseId s' < j \<longrightarrow>
             owner (databases s' j) = 0 \<and> authorizedUsers s' j = []"
  proof (intro allI impI)
    fix j assume j: "j = 0 \<or> nextDatabaseId s' < j"
    then have "j \<noteq> i" using nz by (auto simp: s')
    moreover from j lt have "j = 0 \<or> nextDatabaseId s < j" by (auto simp: s')
    ultimately show "owner (databases s' j) = 0 \<and> authorizedUsers s' j = []"
      using assms(1) by (auto simp: s' consistent_def)
  qed
  have b: "\<forall>j u. isAuthorizedMap s' j u \<longleftrightarrow> u \<in> set (authorizedUsers s' j)"
    using assms(1) fresh by (auto simp: s' consistent_def)
  have c: "\<forall>j. distinct (authorizedUsers s' j)"
    using assms(1) fresh by (auto simp: s' consistent_def)
  have d: "\<forall>j. databaseExists s' j \<longrightarrow>
             owner (databases s' j) \<in> set (authorizedUsers s' j) \<and> 0 \<notin> set (authorizedUsers s' j)"
    using assms(1) fresh by (auto simp: s' consistent_def databaseExists_def)
  from a b c d show ?thesis unfolding consistent_def by blast
qed

lemma consistent_grantAccess:
  assumes "consistent s" and "grantAccess F sender databaseId user s = Inr s'"
  shows "consistent s'"
proof (cases "isAuthorizedMap s databaseId user")
  case True
  with grantAccess_Inr [OF assms(2)] assms(1) show ?thesis by simp
next
  case False
  with grantAccess_Inr [OF assms(2)] have
    ex: "databaseExists s databaseId" and nz: "user \<noteq> 0" and
    s': "s' = s\<lparr> isAuthorizedMap := (isAuthorizedMap s)(databaseId :=
                      (isAuthorizedMap s databaseId)(user := True)),
                    authorizedUsers := (authorizedUsers s)(databaseId :=
                      authorizedUsers s databaseId @ [user]),
                    acl := (if isInitialized F (encryptedAccessAddress (databases s databaseId))
                            then insert (encryptedAccessAddress (databases s databaseId), user) (acl s)
                            else acl s)
                          \<union> (\<lambda>h. (h, user)) ` set (records s databaseId),
                    events := events s @ [AccessGranted databaseId user] \<rparr>"
    by simp_all
  have notin: "user \<notin> set (authorizedUsers s databaseId)"
    using False assms(1) by (simp add: consistent_def)
  have a: "\<forall>j. j = 0 \<or> nextDatabaseId s' < j \<longrightarrow>
             owner (databases s' j) = 0 \<and> authorizedUsers s' j = []"
    using assms(1) ex by (auto simp: s' consistent_def databaseExists_def)
  have b: "\<forall>j u. isAuthorizedMap s' j u \<longleftrightarrow> u \<in> set (authorizedUsers s' j)"
    using assms(1) by (auto simp: s' consistent_def)
  have c: "\<forall>j. distinct (authorizedUsers s' j)"
    using assms(1) notin by (auto simp: s' consistent_def)
  have d: "\<forall>j. databaseExists s' j \<longrightarrow>
             owner (databases s' j) \<in> set (authorizedUsers s' j) \<and> 0 \<notin> set (authorizedUsers s' j)"
    using assms(1) nz by (auto simp: s' consistent_def databaseExists_def)
  from a b c d show ?thesis unfolding consistent_def by blast
qed

lemma consistent_storeValue:
  assumes "consistent s" and "storeValue F sender databaseId encryptedValue valueProof s = Inr s'"
  shows "consistent s'"
proof -
  from assms(2) obtain v where
    "s' = s\<lparr> records := (records s)(databaseId := records s databaseId @ [v]),
            acl := insert (v, owner (databases s databaseId)) (insert (v, this F) (acl s))
                   \<union> (\<lambda>u. (v, u)) ` set (authorizedUsers s databaseId),
            events := events s @ [RecordStored databaseId (of_nat (length (records s databaseId)))] \<rparr>"
    by (rule storeValue_Inr)
  with assms(1) show ?thesis by (simp add: consistent_def databaseExists_def)
qed

lemma consistent_transact: "consistent s \<Longrightarrow> consistent (snd (transact F c s))"
  by (cases c)
    (auto split: sum.splits
      dest: consistent_createDatabase consistent_grantAccess consistent_storeValue)

lemma consistent_run: "consistent s \<Longrightarrow> consistent (run F cs s)"
  by (induction cs arbitrary: s) (simp_all add: consistent_transact)

lemma consistent_reachable: "consistent (run F cs init)"
  by (simp add: consistent_run consistent_init)

section \<open>Nothing is ever removed\<close>

text \<open>
  Records, authorized users, events and visibility grants only grow, a membership once
  set stays set, and the entry of an existing database is never written again.
\<close>

lemma transact_grows:
  "prefix (records s d) (records (snd (transact F c s)) d)
   \<and> prefix (authorizedUsers s d) (authorizedUsers (snd (transact F c s)) d)
   \<and> prefix (events s) (events (snd (transact F c s)))
   \<and> acl s \<subseteq> acl (snd (transact F c s))
   \<and> (isAuthorizedMap s d u \<longrightarrow> isAuthorizedMap (snd (transact F c s)) d u)"
proof (cases c)
  case (CreateDatabase sender timestamp nm encryptedAddress addressProof)
  show ?thesis
  proof (cases "createDatabase F sender timestamp nm encryptedAddress addressProof s")
    case (Inl e)
    with CreateDatabase show ?thesis by simp
  next
    case (Inr r)
    obtain i s' where r: "r = (i, s')" by (cases r)
    from Inr [unfolded r] show ?thesis
      by (rule createDatabase_Inr) (auto simp: CreateDatabase Inr r)
  qed
next
  case (GrantAccess sender databaseId user)
  show ?thesis
  proof (cases "grantAccess F sender databaseId user s")
    case (Inl e)
    with GrantAccess show ?thesis by simp
  next
    case (Inr s')
    from grantAccess_Inr [OF Inr] show ?thesis
      by (cases "isAuthorizedMap s databaseId user") (auto simp: GrantAccess Inr)
  qed
next
  case (StoreValue sender databaseId encryptedValue valueProof)
  show ?thesis
  proof (cases "storeValue F sender databaseId encryptedValue valueProof s")
    case (Inl e)
    with StoreValue show ?thesis by simp
  next
    case (Inr s')
    from Inr show ?thesis
      by (rule storeValue_Inr) (auto simp: StoreValue Inr)
  qed
qed

lemma transact_keeps_database:
  assumes "consistent s" and "databaseExists s d"
  shows "databases (snd (transact F c s)) d = databases s d"
proof (cases c)
  case (CreateDatabase sender timestamp nm encryptedAddress addressProof)
  show ?thesis
  proof (cases "createDatabase F sender timestamp nm encryptedAddress addressProof s")
    case (Inl e)
    with CreateDatabase show ?thesis by simp
  next
    case (Inr r)
    obtain i s' where r: "r = (i, s')" by (cases r)
    from Inr [unfolded r] show ?thesis
    proof (rule createDatabase_Inr)
      fix storedAddress
      assume "nextDatabaseId s \<noteq> - 1" and "i = nextDatabaseId s + 1"
        and "s' = s\<lparr> nextDatabaseId := i,
            databases := (databases s)(i := (databases s i)\<lparr> owner := sender, name := nm,
               encryptedAccessAddress := storedAddress, createdAt := timestamp \<rparr>),
            databasesByOwner := (databasesByOwner s)(sender := databasesByOwner s sender @ [i]),
            isAuthorizedMap := (isAuthorizedMap s)(i := (isAuthorizedMap s i)(sender := True)),
            authorizedUsers := (authorizedUsers s)(i := authorizedUsers s i @ [sender]),
            acl := insert (storedAddress, sender) (insert (storedAddress, this F) (acl s)),
            events := events s @ [DatabaseCreated i sender nm] \<rparr>"
      then show ?thesis
        using existing_not_fresh [OF assms] by (simp add: CreateDatabase Inr r)
    qed
  qed
next
  case (GrantAccess sender databaseId user)
  show ?thesis
  proof (cases "grantAccess F sender databaseId user s")
    case (Inl e)
    with GrantAccess show ?thesis by simp
  next
    case (Inr s')
    from grantAccess_Inr [OF Inr] show ?thesis
      by (cases "isAuthorizedMap s databaseId user") (auto simp: GrantAccess Inr)
  qed
next
  case (StoreValue sender databaseId encryptedValue valueProof)
  show ?thesis
  proof (cases "storeValue F sender databaseId encryptedValue valueProof s")
    case (Inl e)
    with StoreValue show ?thesis by simp
  next
    case (Inr s')
    from Inr show ?thesis
      by (rule storeValue_Inr) (auto simp: StoreValue Inr)
  qed
qed

lemma run_grows:
  "prefix (records s d) (records (run F cs s) d)
   \<and> prefix (authorizedUsers s d) (authorizedUsers (run F cs s) d)
   \<and> prefix (events s) (events (run F cs s))
   \<and> acl s \<subseteq> acl (run F cs s)
   \<and> (isAuthorizedMap s d u \<longrightarrow> isAuthorizedMap (run F cs s) d u)"
proof (induction cs arbitrary: s)
  case Nil
  show ?case by simp
next
  case (Cons c cs)
  from transact_grows [of s d F c u] Cons [of "snd (transact F c s)"]
  show ?case by (auto intro: prefix_order.trans)
qed

lemma run_keeps_database:
  "consistent s \<Longrightarrow> databaseExists s d \<Longrightarrow> databases (run F cs s) d = databases s d"
proof (induction cs arbitrary: s)
  case Nil
  show ?case by simp
next
  case (Cons c cs)
  have "databases (snd (transact F c s)) d = databases s d"
    using Cons.prems by (rule transact_keeps_database)
  moreover from this Cons.prems(2) have "databaseExists (snd (transact F c s)) d"
    by (simp add: databaseExists_def)
  ultimately show ?case
    using Cons.IH [of "snd (transact F c s)"] Cons.prems(1) by (simp add: consistent_transact)
qed

lemma run_keeps_existing:
  "consistent s \<Longrightarrow> databaseExists s d \<Longrightarrow> databaseExists (run F cs s) d"
  by (simp add: databaseExists_def run_keeps_database)

text \<open>
  An account on the list of authorized users that can see every record of a database
  keeps seeing every record: \<^verbatim>\<open>storeValue\<close> grants each new handle to the whole list.
\<close>

lemma transact_keeps_visibility:
  assumes "u \<in> set (authorizedUsers s d)" and "\<forall>h\<in>set (records s d). (h, u) \<in> acl s"
  shows "\<forall>h\<in>set (records (snd (transact F c s)) d). (h, u) \<in> acl (snd (transact F c s))"
proof (cases c)
  case (CreateDatabase sender timestamp nm encryptedAddress addressProof)
  show ?thesis
  proof (cases "createDatabase F sender timestamp nm encryptedAddress addressProof s")
    case (Inl e)
    with CreateDatabase assms show ?thesis by simp
  next
    case (Inr r)
    obtain i s' where r: "r = (i, s')" by (cases r)
    from Inr [unfolded r] show ?thesis
      by (rule createDatabase_Inr) (use assms in \<open>auto simp: CreateDatabase Inr r\<close>)
  qed
next
  case (GrantAccess sender databaseId user)
  show ?thesis
  proof (cases "grantAccess F sender databaseId user s")
    case (Inl e)
    with GrantAccess assms show ?thesis by simp
  next
    case (Inr s')
    from grantAccess_Inr [OF Inr] assms show ?thesis
      by (cases "isAuthorizedMap s databaseId user") (auto simp: GrantAccess Inr)
  qed
next
  case (StoreValue sender databaseId encryptedValue valueProof)
  show ?thesis
  proof (cases "storeValue F sender databaseId encryptedValue valueProof s")
    case (Inl e)
    with StoreValue assms show ?thesis by simp
  next
    case (Inr s')
    from Inr show ?thesis
      by (rule storeValue_Inr) (use assms in \<open>auto simp: StoreValue Inr\<close>)
  qed
qed

lemma run_keeps_visibility:
  "u \<in> set (authorizedUsers s d) \<Longrightarrow> \<forall>h\<in>set (records s d). (h, u) \<in> acl s \<Longrightarrow>
   \<forall>h\<in>set (records (run F cs s) d). (h, u) \<in> acl (run F cs s)"
proof (induction cs arbitrary: s)
  case Nil
  then show ?case by simp
next
  case (Cons c cs)
  have "prefix (authorizedUsers s d) (authorizedUsers (snd (transact F c s)) d)"
    using transact_grows [of s d F c u] by simp
  then have "u \<in> set (authorizedUsers (snd (transact F c s)) d)"
    using Cons.prems(1) by (auto dest: set_mono_prefix)
  moreover have "\<forall>h\<in>set (records (snd (transact F c s)) d).
                   (h, u) \<in> acl (snd (transact F c s))"
    using Cons.prems by (rule transact_keeps_visibility)
  ultimately show ?case
    using Cons.IH [of "snd (transact F c s)"] by simp
qed

section \<open>The id counter\<close>

lemma count_list_distinct:
  "distinct xs \<Longrightarrow> count_list xs x = (if x \<in> set xs then 1 else 0)"
  by (induction xs) auto

lemma transact_counter:
  "(case fst (transact F c s) of
      Created i \<Rightarrow> nextDatabaseId s \<noteq> - 1 \<and> i = nextDatabaseId s + 1
                   \<and> nextDatabaseId (snd (transact F c s)) = i
    | _ \<Rightarrow> nextDatabaseId (snd (transact F c s)) = nextDatabaseId s)"
proof (cases c)
  case (CreateDatabase sender timestamp nm encryptedAddress addressProof)
  show ?thesis
  proof (cases "createDatabase F sender timestamp nm encryptedAddress addressProof s")
    case (Inl e)
    with CreateDatabase show ?thesis by simp
  next
    case (Inr r)
    obtain i s' where r: "r = (i, s')" by (cases r)
    from Inr [unfolded r] show ?thesis
      by (rule createDatabase_Inr) (simp add: CreateDatabase Inr r)
  qed
next
  case (GrantAccess sender databaseId user)
  show ?thesis
  proof (cases "grantAccess F sender databaseId user s")
    case (Inl e)
    with GrantAccess show ?thesis by simp
  next
    case (Inr s')
    from grantAccess_Inr [OF Inr] show ?thesis
      by (cases "isAuthorizedMap s databaseId user") (auto simp: GrantAccess Inr)
  qed
next
  case (StoreValue sender databaseId encryptedValue valueProof)
  show ?thesis
  proof (cases "storeValue F sender databaseId encryptedValue valueProof s")
    case (Inl e)
    with StoreValue show ?thesis by simp
  next
    case (Inr s')
    from Inr show ?thesis
      by (rule storeValue_Inr) (auto simp: StoreValue Inr)
  qed
qed

lemma createdIds_from:
  "map unat (createdIds F cs s)
     = [Suc (unat (nextDatabaseId s)) ..< Suc (unat (nextDatabaseId s) + length (createdIds F cs s))]
   \<and> unat (nextDatabaseId (run F cs s))
     = unat (nextDatabaseId s) + length (createdIds F cs s)"
proof (induction cs arbitrary: s)
  case Nil
  show ?case by simp
next
  case (Cons c cs)
  obtain r s' where t: "transact F c s = (r, s')" by (cases "transact F c s")
  show ?case
  proof (cases r)
    case (Created i)
    with transact_counter [of F c s] t
    have "unat (nextDatabaseId s') = Suc (unat (nextDatabaseId s))" and "i = nextDatabaseId s'"
      by (simp_all add: unat_succ)
    with Cons [of s'] show ?thesis
      by (simp add: t Created upt_conv_Cons del: upt_Suc)
  next
    case (Reverted e)
    with transact_counter [of F c s] t have "nextDatabaseId s' = nextDatabaseId s" by simp
    with Cons [of s'] show ?thesis by (simp add: t Reverted)
  next
    case Done
    with transact_counter [of F c s] t have "nextDatabaseId s' = nextDatabaseId s" by simp
    with Cons [of s'] show ?thesis by (simp add: t Done)
  qed
qed

lemma last_created:
  assumes m: "map unat ids = [1 ..< Suc (length ids)]" and n: "unat (c :: uint256) = length ids"
    and ne: "ids \<noteq> []"
  shows "c = last ids"
proof -
  have "unat (last ids) = last (map unat ids)"
    using ne by (simp add: last_map)
  also have "\<dots> = length ids"
    using ne unfolding m by (cases ids) simp_all
  finally show ?thesis
    using n by (simp add: word_unat_eq_iff)
qed

section \<open>Reads of an absent database\<close>

text \<open>
  C10. On an id that does not denote an existing database, \<open>isAuthorized\<close>,
  \<open>getEncryptedAddress\<close>, \<open>getEncryptedRecords\<close> and \<open>getEncryptedRecord\<close> all fail with
  \<open>NotFound\<close>, for every identity and every index: none of them reports a membership
  or a handle.
\<close>

theorem reads_of_absent_database:
  assumes "\<not> databaseExists s databaseId"
  shows "isAuthorized s databaseId user = Inl NotFound
       \<and> getEncryptedAddress s databaseId = Inl NotFound
       \<and> getEncryptedRecords s databaseId = Inl NotFound
       \<and> getEncryptedRecord s databaseId index = Inl NotFound"
  using assms
  by (simp add: isAuthorized_def getEncryptedAddress_def getEncryptedRecords_def
      getEncryptedRecord_def)

theorem reads_of_absent_database_witness:
  "\<not> databaseExists (run demoFHE [CreateDatabase 0xA 7 ''ops'' 5 [1]] init) 2
   \<and> isAuthorized (run demoFHE [CreateDatabase 0xA 7 ''ops'' 5 [1]] init) 2 0xA = Inl NotFound
   \<and> getEncryptedAddress (run demoFHE [CreateDatabase 0xA 7 ''ops'' 5 [1]] init) 2 = Inl NotFound
   \<and> getEncryptedRecords (run demoFHE [CreateDatabase 0xA 7 ''ops'' 5 [1]] init) 2 = Inl NotFound
   \<and> getEncryptedRecord (run demoFHE [CreateDatabase 0xA 7 ''ops'' 5 [1]] init) 2 0 = Inl NotFound"
  using reads_of_absent_database
      [where s = "run demoFHE [CreateDatabase 0xA 7 ''ops'' 5 [1]] init" and databaseId = 2
        and user = "0xA" and index = 0]
  by (simp add: vault_defs)

section \<open>Rejected calls\<close>

text \<open>
  C5. On an existing database, \<open>storeValue\<close> by a caller outside the authorization
  set fails with \<open>Unauthorized\<close>, whatever the library does with the payload (the
  check precedes \<^verbatim>\<open>FHE.fromExternal\<close>, so a payload the verifier would reject still
  gives \<open>Unauthorized\<close>); the transaction leaves the whole storage as it was, and in
  particular the number of records of the database.
\<close>

theorem storeValue_by_non_member:
  assumes "databaseExists s databaseId" and "\<not> isAuthorizedMap s databaseId sender"
  shows "storeValue F sender databaseId encryptedValue valueProof s = Inl Unauthorized
       \<and> transact F (StoreValue sender databaseId encryptedValue valueProof) s
           = (Reverted Unauthorized, s)
       \<and> length (records (snd (transact F
             (StoreValue sender databaseId encryptedValue valueProof) s)) databaseId)
           = length (records s databaseId)"
  using assms by (simp add: storeValue_def)

theorem storeValue_by_non_member_witness:
  "databaseExists (run demoFHE [CreateDatabase 0xA 7 ''ops'' 5 [1]] init) 1
   \<and> \<not> isAuthorizedMap (run demoFHE [CreateDatabase 0xA 7 ''ops'' 5 [1]] init) 1 0xB
   \<and> fromExternalEuint32 demoFHE 0xB 9 [] = None
   \<and> storeValue demoFHE 0xB 1 9 [] (run demoFHE [CreateDatabase 0xA 7 ''ops'' 5 [1]] init)
       = Inl Unauthorized
   \<and> storeValue demoFHE 0xB 1 9 [1] (run demoFHE [CreateDatabase 0xA 7 ''ops'' 5 [1]] init)
       = Inl Unauthorized"
  using storeValue_by_non_member
      [where s = "run demoFHE [CreateDatabase 0xA 7 ''ops'' 5 [1]] init" and databaseId = 1
        and sender = "0xB" and F = demoFHE and encryptedValue = 9 and valueProof = "[]"]
    storeValue_by_non_member
      [where s = "run demoFHE [CreateDatabase 0xA 7 ''ops'' 5 [1]] init" and databaseId = 1
        and sender = "0xB" and F = demoFHE and encryptedValue = 9 and valueProof = "[1]"]
  by (simp add: vault_defs)

text \<open>
  C6. \<open>grantAccess\<close> fails with \<open>NotFound\<close> when the database does not exist, with
  \<open>InvalidIdentity\<close> when the database exists and the identity is the zero address,
  and with \<open>NotOwner\<close> when the database exists, the identity is not zero and the
  caller is not the owner. Whenever it fails, the transaction leaves the storage, and so
  the authorization list and the membership map, unchanged.
\<close>

theorem grantAccess_failures:
  "(\<not> databaseExists s databaseId \<longrightarrow>
      grantAccess F sender databaseId user s = Inl NotFound)
   \<and> (databaseExists s databaseId \<and> user = 0 \<longrightarrow>
      grantAccess F sender databaseId user s = Inl InvalidIdentity)
   \<and> (databaseExists s databaseId \<and> user \<noteq> 0 \<and> owner (databases s databaseId) \<noteq> sender \<longrightarrow>
      grantAccess F sender databaseId user s = Inl NotOwner)
   \<and> (\<forall>e. grantAccess F sender databaseId user s = Inl e \<longrightarrow>
      transact F (GrantAccess sender databaseId user) s = (Reverted e, s)
      \<and> authorizedUsers (snd (transact F (GrantAccess sender databaseId user) s))
          = authorizedUsers s
      \<and> isAuthorizedMap (snd (transact F (GrantAccess sender databaseId user) s))
          = isAuthorizedMap s)"
  by (simp add: grantAccess_def)

theorem grantAccess_failures_witness:
  "\<not> databaseExists (run demoFHE [CreateDatabase 0xA 7 ''ops'' 5 [1]] init) 2
   \<and> grantAccess demoFHE 0xA 2 0xB (run demoFHE [CreateDatabase 0xA 7 ''ops'' 5 [1]] init)
       = Inl NotFound
   \<and> databaseExists (run demoFHE [CreateDatabase 0xA 7 ''ops'' 5 [1]] init) 1
   \<and> grantAccess demoFHE 0xA 1 0 (run demoFHE [CreateDatabase 0xA 7 ''ops'' 5 [1]] init)
       = Inl InvalidIdentity
   \<and> owner (databases (run demoFHE [CreateDatabase 0xA 7 ''ops'' 5 [1]] init) 1) \<noteq> 0xB
   \<and> grantAccess demoFHE 0xB 1 0xC (run demoFHE [CreateDatabase 0xA 7 ''ops'' 5 [1]] init)
       = Inl NotOwner
   \<and> transact demoFHE (GrantAccess 0xB 1 0xC)
         (run demoFHE [CreateDatabase 0xA 7 ''ops'' 5 [1]] init)
       = (Reverted NotOwner, run demoFHE [CreateDatabase 0xA 7 ''ops'' 5 [1]] init)"
  using grantAccess_failures
      [where s = "run demoFHE [CreateDatabase 0xA 7 ''ops'' 5 [1]] init" and databaseId = 2
        and F = demoFHE and sender = "0xA" and user = "0xB"]
    grantAccess_failures
      [where s = "run demoFHE [CreateDatabase 0xA 7 ''ops'' 5 [1]] init" and databaseId = 1
        and F = demoFHE and sender = "0xA" and user = 0]
    grantAccess_failures
      [where s = "run demoFHE [CreateDatabase 0xA 7 ''ops'' 5 [1]] init" and databaseId = 1
        and F = demoFHE and sender = "0xB" and user = "0xC"]
  by (simp add: vault_defs)

text \<open>
  C8. \<open>createDatabase\<close> fails with \<open>EmptyName\<close> when the name is empty, and with
  \<open>InvalidCiphertext\<close> when the name is not empty and the library rejects the payload
  and proof. Whenever it fails, the transaction leaves the whole storage unchanged: the
  id counter, the databases, the ownership index, the authorization structures and the
  event log.
\<close>

theorem createDatabase_rejections:
  "(nm = [] \<longrightarrow>
      createDatabase F sender timestamp nm encryptedAddress addressProof s = Inl EmptyName)
   \<and> (nm \<noteq> [] \<and> fromExternalEaddress F sender encryptedAddress addressProof = None \<longrightarrow>
      createDatabase F sender timestamp nm encryptedAddress addressProof s
        = Inl InvalidCiphertext)
   \<and> (\<forall>e. createDatabase F sender timestamp nm encryptedAddress addressProof s = Inl e \<longrightarrow>
      transact F (CreateDatabase sender timestamp nm encryptedAddress addressProof) s
        = (Reverted e, s))"
  by (simp add: createDatabase_def)

theorem createDatabase_rejections_witness:
  "createDatabase demoFHE 0xA 7 [] 5 [1] init = Inl EmptyName
   \<and> fromExternalEaddress demoFHE 0xA 5 [] = None
   \<and> createDatabase demoFHE 0xA 7 ''ops'' 5 [] init = Inl InvalidCiphertext
   \<and> transact demoFHE (CreateDatabase 0xA 7 [] 5 [1]) init = (Reverted EmptyName, init)
   \<and> transact demoFHE (CreateDatabase 0xA 7 ''ops'' 5 []) init = (Reverted InvalidCiphertext, init)
   \<and> createdIds demoFHE [CreateDatabase 0xA 7 [] 5 [1], CreateDatabase 0xA 7 ''ops'' 5 [],
        CreateDatabase 0xA 7 ''ops'' 5 [1]] init = [1]"
  using createDatabase_rejections [where nm = "[]" and F = demoFHE and sender = "0xA"
      and timestamp = 7 and encryptedAddress = 5 and addressProof = "[1]" and s = init]
    createDatabase_rejections [where nm = "''ops''" and F = demoFHE and sender = "0xA"
      and timestamp = 7 and encryptedAddress = 5 and addressProof = "[]" and s = init]
  by (simp add: vault_defs)

section \<open>Granting access\<close>

text \<open>
  C1. In a storage reached from a fresh contract, a successful \<open>grantAccess\<close> for an
  identity that was not yet authorized sets its membership flag and appends it to the
  list of authorized users, grants it visibility of the access handle when that handle
  is initialized, and grants it visibility of every record handle the database holds at
  that time. After any further sequence of transactions \<open>isAuthorized\<close> still answers
  true for it, and it has visibility of every record handle of the database, the ones
  appended later included.
\<close>

theorem grantAccess_extends_visibility:
  assumes "s = run F cs init"
    and "grantAccess F sender d u s = Inr s'"
    and "\<not> isAuthorizedMap s d u"
  shows "isAuthorizedMap s' d u
       \<and> authorizedUsers s' d = authorizedUsers s d @ [u]
       \<and> (isInitialized F (encryptedAccessAddress (databases s d)) \<longrightarrow>
            (encryptedAccessAddress (databases s d), u) \<in> acl s')
       \<and> (\<forall>h\<in>set (records s d). (h, u) \<in> acl s')
       \<and> (\<forall>cs'. isAuthorized (run F cs' s') d u = Inr True
             \<and> (\<forall>h\<in>set (records (run F cs' s') d). (h, u) \<in> acl (run F cs' s')))"
proof -
  have c: "consistent s"
    using assms(1) by (simp add: consistent_reachable)
  from grantAccess_Inr [OF assms(2)] assms(3) have
    ex: "databaseExists s d" and
    s': "s' = s\<lparr> isAuthorizedMap := (isAuthorizedMap s)(d := (isAuthorizedMap s d)(u := True)),
                authorizedUsers := (authorizedUsers s)(d := authorizedUsers s d @ [u]),
                acl := (if isInitialized F (encryptedAccessAddress (databases s d))
                        then insert (encryptedAccessAddress (databases s d), u) (acl s)
                        else acl s)
                      \<union> (\<lambda>h. (h, u)) ` set (records s d),
                events := events s @ [AccessGranted d u] \<rparr>"
    by simp_all
  have now: "isAuthorizedMap s' d u" "authorizedUsers s' d = authorizedUsers s d @ [u]"
    "isInitialized F (encryptedAccessAddress (databases s d)) \<longrightarrow>
       (encryptedAccessAddress (databases s d), u) \<in> acl s'"
    "\<forall>h\<in>set (records s d). (h, u) \<in> acl s'"
    by (simp_all add: s')
  have c': "consistent s'"
    using c assms(2) by (rule consistent_grantAccess)
  have e': "databaseExists s' d"
    using ex by (simp add: s' databaseExists_def)
  have vis: "\<forall>h\<in>set (records s' d). (h, u) \<in> acl s'" and mem: "u \<in> set (authorizedUsers s' d)"
    by (simp_all add: s')
  have later: "isAuthorized (run F cs' s') d u = Inr True
             \<and> (\<forall>h\<in>set (records (run F cs' s') d). (h, u) \<in> acl (run F cs' s'))" for cs'
    using run_keeps_existing [OF c' e', of F cs'] run_grows [of s' d F cs' u] now(1)
      run_keeps_visibility [OF mem vis, of F cs']
    by (simp add: isAuthorized_def)
  from now later show ?thesis by blast
qed

theorem grantAccess_extends_visibility_witness:
  "grantAccess demoFHE 0xA 1 0xB
      (run demoFHE [CreateDatabase 0xA 7 ''ops'' 5 [1], StoreValue 0xA 1 9 [1]] init)
     = Inr (run demoFHE [CreateDatabase 0xA 7 ''ops'' 5 [1], StoreValue 0xA 1 9 [1],
              GrantAccess 0xA 1 0xB] init)
   \<and> \<not> isAuthorizedMap
        (run demoFHE [CreateDatabase 0xA 7 ''ops'' 5 [1], StoreValue 0xA 1 9 [1]] init) 1 0xB
   \<and> authorizedUsers (run demoFHE [CreateDatabase 0xA 7 ''ops'' 5 [1], StoreValue 0xA 1 9 [1],
        GrantAccess 0xA 1 0xB] init) 1 = [0xA, 0xB]
   \<and> (5, 0xB) \<in> acl (run demoFHE [CreateDatabase 0xA 7 ''ops'' 5 [1], StoreValue 0xA 1 9 [1],
        GrantAccess 0xA 1 0xB] init)
   \<and> (9, 0xB) \<in> acl (run demoFHE [CreateDatabase 0xA 7 ''ops'' 5 [1], StoreValue 0xA 1 9 [1],
        GrantAccess 0xA 1 0xB] init)
   \<and> isAuthorized (run demoFHE [StoreValue 0xA 1 8 [1]]
        (run demoFHE [CreateDatabase 0xA 7 ''ops'' 5 [1], StoreValue 0xA 1 9 [1],
          GrantAccess 0xA 1 0xB] init)) 1 0xB = Inr True
   \<and> (8, 0xB) \<in> acl (run demoFHE [StoreValue 0xA 1 8 [1]]
        (run demoFHE [CreateDatabase 0xA 7 ''ops'' 5 [1], StoreValue 0xA 1 9 [1],
          GrantAccess 0xA 1 0xB] init))"
proof -
  have g: "grantAccess demoFHE 0xA 1 0xB
      (run demoFHE [CreateDatabase 0xA 7 ''ops'' 5 [1], StoreValue 0xA 1 9 [1]] init)
     = Inr (run demoFHE [CreateDatabase 0xA 7 ''ops'' 5 [1], StoreValue 0xA 1 9 [1],
              GrantAccess 0xA 1 0xB] init)"
    by (simp add: vault_defs)
  have n: "\<not> isAuthorizedMap
        (run demoFHE [CreateDatabase 0xA 7 ''ops'' 5 [1], StoreValue 0xA 1 9 [1]] init) 1 0xB"
    by (simp add: vault_defs)
  show ?thesis
    using g n grantAccess_extends_visibility [OF refl g n]
    by (simp add: vault_defs view_defs)
qed

text \<open>
  C4. In a storage reached from a fresh contract, \<open>grantAccess\<close> by the owner for an
  identity that is already authorized succeeds and returns the storage as it was: no
  write, no second entry in the list, no event. Hence two identical \<open>grantAccess\<close>
  transactions in a row leave the storage that one leaves, and the identity is listed at
  most once afterwards.
\<close>

theorem grantAccess_idempotent:
  assumes "s = run F cs init"
  shows "(databaseExists s d \<and> owner (databases s d) = sender \<and> isAuthorizedMap s d u \<longrightarrow>
            grantAccess F sender d u s = Inr s
            \<and> transact F (GrantAccess sender d u) s = (Done, s))
       \<and> run F [GrantAccess sender d u, GrantAccess sender d u] s
           = run F [GrantAccess sender d u] s
       \<and> count_list (authorizedUsers
            (run F [GrantAccess sender d u, GrantAccess sender d u] s) d) u \<le> 1"
proof -
  have c: "consistent s"
    using assms by (simp add: consistent_reachable)
  have noop: "grantAccess F sender d u s = Inr s"
    if "databaseExists s d" "owner (databases s d) = sender" "isAuthorizedMap s d u"
  proof -
    from c that(1,3) have "u \<noteq> 0" by (auto simp: consistent_def)
    with that show ?thesis by (simp add: grantAccess_def)
  qed
  have twice: "run F [GrantAccess sender d u, GrantAccess sender d u] s
                 = run F [GrantAccess sender d u] s"
  proof (cases "grantAccess F sender d u s")
    case (Inl e)
    then show ?thesis by simp
  next
    case (Inr s')
    from grantAccess_Inr [OF Inr]
    have "grantAccess F sender d u s' = Inr s'"
      by (cases "isAuthorizedMap s d u") (auto simp: grantAccess_def databaseExists_def)
    with Inr show ?thesis by simp
  qed
  have "consistent (run F [GrantAccess sender d u, GrantAccess sender d u] s)"
    using c by (rule consistent_run)
  then have "distinct (authorizedUsers
               (run F [GrantAccess sender d u, GrantAccess sender d u] s) d)"
    by (simp add: consistent_def)
  then have "count_list (authorizedUsers
               (run F [GrantAccess sender d u, GrantAccess sender d u] s) d) u \<le> 1"
    by (simp add: count_list_distinct)
  with noop twice show ?thesis by simp
qed

theorem grantAccess_idempotent_witness:
  "databaseExists (run demoFHE [CreateDatabase 0xA 7 ''ops'' 5 [1], GrantAccess 0xA 1 0xB] init) 1
   \<and> owner (databases
        (run demoFHE [CreateDatabase 0xA 7 ''ops'' 5 [1], GrantAccess 0xA 1 0xB] init) 1) = 0xA
   \<and> isAuthorizedMap
        (run demoFHE [CreateDatabase 0xA 7 ''ops'' 5 [1], GrantAccess 0xA 1 0xB] init) 1 0xB
   \<and> transact demoFHE (GrantAccess 0xA 1 0xB)
        (run demoFHE [CreateDatabase 0xA 7 ''ops'' 5 [1], GrantAccess 0xA 1 0xB] init)
       = (Done, run demoFHE [CreateDatabase 0xA 7 ''ops'' 5 [1], GrantAccess 0xA 1 0xB] init)
   \<and> authorizedUsers (run demoFHE [GrantAccess 0xA 1 0xB, GrantAccess 0xA 1 0xB]
        (run demoFHE [CreateDatabase 0xA 7 ''ops'' 5 [1]] init)) 1 = [0xA, 0xB]"
  using grantAccess_idempotent
      [OF refl, where F = demoFHE and d = 1 and u = "0xB" and sender = "0xA"
        and cs = "[CreateDatabase 0xA 7 ''ops'' 5 [1], GrantAccess 0xA 1 0xB]"]
    grantAccess_idempotent
      [OF refl, where F = demoFHE and d = 1 and u = "0xB" and sender = "0xA"
        and cs = "[CreateDatabase 0xA 7 ''ops'' 5 [1]]"]
  by (simp add: vault_defs)

section \<open>Storing a value\<close>

text \<open>
  C2. In a storage reached from a fresh contract, \<open>storeValue\<close> on an existing
  database by a caller whose membership flag is set, with a payload the library accepts,
  succeeds; it appends the handle at the index that was the record count, so that the
  count grows by one and no other database changes; it grants visibility of the new handle
  to the contract itself, to the owner and to every identity whose membership flag is
  set; and it emits \<open>RecordStored\<close> with the database id and that index.
\<close>

theorem storeValue_appends_and_shares:
  assumes "s = run F cs init"
    and "databaseExists s d"
    and "isAuthorizedMap s d sender"
    and "fromExternalEuint32 F sender encryptedValue valueProof = Some v"
    and "s' = snd (transact F (StoreValue sender d encryptedValue valueProof) s)"
  shows "storeValue F sender d encryptedValue valueProof s = Inr s'
       \<and> records s' d = records s d @ [v]
       \<and> records s' d ! length (records s d) = v
       \<and> length (records s' d) = length (records s d) + 1
       \<and> (\<forall>d'. d' \<noteq> d \<longrightarrow> records s' d' = records s d')
       \<and> (v, this F) \<in> acl s'
       \<and> (v, owner (databases s d)) \<in> acl s'
       \<and> (\<forall>u. isAuthorizedMap s d u \<longrightarrow> (v, u) \<in> acl s')
       \<and> events s' = events s @ [RecordStored d (of_nat (length (records s d)))]"
proof -
  have c: "consistent s"
    using assms(1) by (simp add: consistent_reachable)
  have "\<exists>t. storeValue F sender d encryptedValue valueProof s = Inr t"
    using assms(2-4) by (simp add: storeValue_def Let_def)
  then have ok: "storeValue F sender d encryptedValue valueProof s = Inr s'"
    using assms(5) by auto
  from ok obtain w where
    w: "fromExternalEuint32 F sender encryptedValue valueProof = Some w" and
    s': "s' = s\<lparr> records := (records s)(d := records s d @ [w]),
            acl := insert (w, owner (databases s d)) (insert (w, this F) (acl s))
                   \<union> (\<lambda>u. (w, u)) ` set (authorizedUsers s d),
            events := events s @ [RecordStored d (of_nat (length (records s d)))] \<rparr>"
    by (rule storeValue_Inr)
  from w assms(4) have wv: "w = v" by simp
  have sync: "\<And>u. isAuthorizedMap s d u \<Longrightarrow> u \<in> set (authorizedUsers s d)"
    using c by (simp add: consistent_def)
  have "\<forall>u. isAuthorizedMap s d u \<longrightarrow> (v, u) \<in> acl s'"
    using sync by (auto simp: s' wv)
  moreover have "records s' d = records s d @ [v]"
    "records s' d ! length (records s d) = v"
    "length (records s' d) = length (records s d) + 1"
    "\<forall>d'. d' \<noteq> d \<longrightarrow> records s' d' = records s d'"
    "(v, this F) \<in> acl s'" "(v, owner (databases s d)) \<in> acl s'"
    "events s' = events s @ [RecordStored d (of_nat (length (records s d)))]"
    by (simp_all add: s' wv)
  ultimately show ?thesis
    using ok by blast
qed

theorem storeValue_appends_and_shares_witness:
  "databaseExists (run demoFHE [CreateDatabase 0xA 7 ''ops'' 5 [1], StoreValue 0xA 1 9 [1],
        GrantAccess 0xA 1 0xB] init) 1
   \<and> isAuthorizedMap (run demoFHE [CreateDatabase 0xA 7 ''ops'' 5 [1], StoreValue 0xA 1 9 [1],
        GrantAccess 0xA 1 0xB] init) 1 0xB
   \<and> fromExternalEuint32 demoFHE 0xB 8 [1] = Some 8
   \<and> records (run demoFHE [CreateDatabase 0xA 7 ''ops'' 5 [1], StoreValue 0xA 1 9 [1],
        GrantAccess 0xA 1 0xB, StoreValue 0xB 1 8 [1]] init) 1 = [9, 8]
   \<and> (8, 0xC0) \<in> acl (run demoFHE [CreateDatabase 0xA 7 ''ops'' 5 [1], StoreValue 0xA 1 9 [1],
        GrantAccess 0xA 1 0xB, StoreValue 0xB 1 8 [1]] init)
   \<and> (8, 0xA) \<in> acl (run demoFHE [CreateDatabase 0xA 7 ''ops'' 5 [1], StoreValue 0xA 1 9 [1],
        GrantAccess 0xA 1 0xB, StoreValue 0xB 1 8 [1]] init)
   \<and> (8, 0xB) \<in> acl (run demoFHE [CreateDatabase 0xA 7 ''ops'' 5 [1], StoreValue 0xA 1 9 [1],
        GrantAccess 0xA 1 0xB, StoreValue 0xB 1 8 [1]] init)
   \<and> events (run demoFHE [CreateDatabase 0xA 7 ''ops'' 5 [1], StoreValue 0xA 1 9 [1],
        GrantAccess 0xA 1 0xB, StoreValue 0xB 1 8 [1]] init)
       = [DatabaseCreated 1 0xA ''ops'', RecordStored 1 0, AccessGranted 1 0xB, RecordStored 1 1]"
proof -
  have e: "databaseExists (run demoFHE [CreateDatabase 0xA 7 ''ops'' 5 [1],
        StoreValue 0xA 1 9 [1], GrantAccess 0xA 1 0xB] init) 1"
    by (simp add: vault_defs)
  have a: "isAuthorizedMap (run demoFHE [CreateDatabase 0xA 7 ''ops'' 5 [1],
        StoreValue 0xA 1 9 [1], GrantAccess 0xA 1 0xB] init) 1 0xB"
    by (simp add: vault_defs)
  have v: "fromExternalEuint32 demoFHE 0xB 8 [1] = Some 8"
    by (simp add: demoFHE_def)
  show ?thesis
    using e a v storeValue_appends_and_shares [OF refl e a v refl]
    by (simp add: vault_defs)
qed

section \<open>The authorization set\<close>

text \<open>
  C3. In a storage reached from a fresh contract and for an existing database, the
  membership test answers true for an identity exactly when the identity occurs once in
  the list of authorized users, and the list has no duplicates; the owner tests as
  authorized; and after any further sequence of transactions an identity that tested as
  authorized still does, the list of authorized users having only been extended.
\<close>

theorem authorization_set_invariant:
  assumes "s = run F cs init" and "databaseExists s d"
  shows "isAuthorized s d u = Inr (count_list (authorizedUsers s d) u = 1)
       \<and> distinct (authorizedUsers s d)
       \<and> isAuthorized s d (owner (databases s d)) = Inr True
       \<and> (\<forall>cs'. isAuthorized s d u = Inr True \<longrightarrow> isAuthorized (run F cs' s) d u = Inr True)
       \<and> (\<forall>cs'. prefix (authorizedUsers s d) (authorizedUsers (run F cs' s) d))"
proof -
  have c: "consistent s"
    using assms(1) by (simp add: consistent_reachable)
  then have sync: "isAuthorizedMap s d u \<longleftrightarrow> u \<in> set (authorizedUsers s d)"
    and dist: "distinct (authorizedUsers s d)"
    and own: "owner (databases s d) \<in> set (authorizedUsers s d)"
    and sync_own: "isAuthorizedMap s d (owner (databases s d))
                     \<longleftrightarrow> owner (databases s d) \<in> set (authorizedUsers s d)"
    using assms(2) by (simp_all add: consistent_def)
  have "isAuthorized s d u = Inr (count_list (authorizedUsers s d) u = 1)"
    using assms(2) sync dist by (simp add: isAuthorized_def count_list_distinct)
  moreover have "isAuthorized s d (owner (databases s d)) = Inr True"
    using assms(2) own sync_own by (simp add: isAuthorized_def)
  moreover have "isAuthorized (run F cs' s) d u = Inr True"
    if "isAuthorized s d u = Inr True" for cs'
    using that assms(2) run_keeps_existing [OF c assms(2), of F cs'] run_grows [of s d F cs' u]
    by (simp add: isAuthorized_def)
  moreover have "prefix (authorizedUsers s d) (authorizedUsers (run F cs' s) d)" for cs'
    using run_grows [of s d F cs'] by simp
  ultimately show ?thesis
    using dist by blast
qed

theorem authorization_set_invariant_witness:
  "databaseExists (run demoFHE [CreateDatabase 0xA 7 ''ops'' 5 [1], GrantAccess 0xA 1 0xB] init) 1
   \<and> isAuthorized (run demoFHE [CreateDatabase 0xA 7 ''ops'' 5 [1], GrantAccess 0xA 1 0xB] init) 1 0xB
       = Inr True
   \<and> count_list (authorizedUsers
        (run demoFHE [CreateDatabase 0xA 7 ''ops'' 5 [1], GrantAccess 0xA 1 0xB] init) 1) 0xB = 1
   \<and> isAuthorized (run demoFHE [CreateDatabase 0xA 7 ''ops'' 5 [1], GrantAccess 0xA 1 0xB] init) 1 0xA
       = Inr True
   \<and> isAuthorized (run demoFHE [StoreValue 0xB 1 8 [1], GrantAccess 0xA 1 0xB]
        (run demoFHE [CreateDatabase 0xA 7 ''ops'' 5 [1], GrantAccess 0xA 1 0xB] init)) 1 0xB
       = Inr True"
  using authorization_set_invariant
    [OF refl, where F = demoFHE and d = 1 and u = "0xB"
      and cs = "[CreateDatabase 0xA 7 ''ops'' 5 [1], GrantAccess 0xA 1 0xB]"]
  by (simp add: vault_defs view_defs)

section \<open>Database ids\<close>

text \<open>
  C7. The ids returned by the successful \<open>createDatabase\<close> calls of any sequence of
  transactions on a fresh contract are 1, 2, 3, ... in this order: strictly increasing,
  never repeated, never 0. \<open>databaseCount\<close> is their number, that is the highest of
  them; it is 0 on a fresh contract; and no database with id 0 exists.
\<close>

theorem database_ids_sequential:
  "map unat (createdIds F cs init) = [1 ..< Suc (length (createdIds F cs init))]
   \<and> unat (databaseCount (run F cs init)) = length (createdIds F cs init)
   \<and> (createdIds F cs init \<noteq> [] \<longrightarrow>
        hd (createdIds F cs init) = 1
        \<and> databaseCount (run F cs init) = last (createdIds F cs init))
   \<and> sorted_wrt (<) (createdIds F cs init)
   \<and> distinct (createdIds F cs init)
   \<and> 0 \<notin> set (createdIds F cs init)
   \<and> \<not> databaseExists (run F cs init) 0
   \<and> databaseCount init = 0"
proof -
  let ?ids = "createdIds F cs init"
  have m: "map unat ?ids = [1 ..< Suc (length ?ids)]"
    and n: "unat (databaseCount (run F cs init)) = length ?ids"
    using createdIds_from [of F cs init] by (simp_all add: init_def databaseCount_def)
  have st: "sorted_wrt (<) (map unat ?ids)" and d: "distinct (map unat ?ids)"
    and z: "0 \<notin> set (map unat ?ids)"
    unfolding m by (simp_all del: upt_Suc)
  have lt: "(\<lambda>x y. unat x < unat y) = ((<) :: uint256 \<Rightarrow> uint256 \<Rightarrow> bool)"
    by (intro ext) (simp add: word_less_nat_alt)
  from st have "sorted_wrt (<) ?ids"
    by (simp add: sorted_wrt_map lt)
  moreover from d have "distinct ?ids" by (simp add: distinct_map)
  moreover from z have "0 \<notin> set ?ids" by force
  moreover have "\<not> databaseExists (run F cs init) 0"
    using consistent_reachable [of F cs] by (simp add: consistent_def databaseExists_def)
  moreover have "databaseCount init = 0" by (simp add: databaseCount_def init_def)
  moreover have "databaseCount (run F cs init) = last ?ids" if "?ids \<noteq> []"
    using m n that by (rule last_created)
  moreover have "hd ?ids = 1" if "?ids \<noteq> []"
  proof -
    have "unat (hd ?ids) = hd (map unat ?ids)"
      using that by (simp add: hd_map)
    also have "\<dots> = 1"
      using that unfolding m by (cases ?ids) (simp_all add: upt_conv_Cons del: upt_Suc)
    finally show ?thesis
      by (simp add: word_unat_eq_iff)
  qed
  ultimately show ?thesis using m n by blast
qed

theorem database_ids_sequential_witness:
  "createdIds demoFHE [CreateDatabase 0xA 7 [] 5 [1], CreateDatabase 0xA 7 ''ops'' 5 [1],
      StoreValue 0xA 1 9 [1], CreateDatabase 0xB 8 ''logs'' 6 [1]] init = [1, 2]
   \<and> databaseCount (run demoFHE [CreateDatabase 0xA 7 [] 5 [1], CreateDatabase 0xA 7 ''ops'' 5 [1],
      StoreValue 0xA 1 9 [1], CreateDatabase 0xB 8 ''logs'' 6 [1]] init) = 2
   \<and> \<not> databaseExists (run demoFHE [CreateDatabase 0xA 7 [] 5 [1],
      CreateDatabase 0xA 7 ''ops'' 5 [1], StoreValue 0xA 1 9 [1],
      CreateDatabase 0xB 8 ''logs'' 6 [1]] init) 0"
  using database_ids_sequential
    [where F = demoFHE and cs = "[CreateDatabase 0xA 7 [] 5 [1],
      CreateDatabase 0xA 7 ''ops'' 5 [1], StoreValue 0xA 1 9 [1],
      CreateDatabase 0xB 8 ''logs'' 6 [1]]"]
  by (simp add: vault_defs view_defs)

section \<open>Reading a record\<close>

text \<open>
  C9. In a storage reached from a fresh contract and for an existing database,
  \<open>getEncryptedRecord\<close> fails with \<open>IndexOutOfRange\<close> exactly when the index is at
  least the number of records; below it, the function returns the handle stored at the
  index. The handle a successful \<open>storeValue\<close> appended at an index is what the
  function returns for that index after any further sequence of transactions. The
  function is a view: it takes the storage and returns a result only.
\<close>

theorem getEncryptedRecord_result:
  assumes "s = run F cs init" and "databaseExists s d"
  shows "(getEncryptedRecord s d index = Inl IndexOutOfRange
            \<longleftrightarrow> length (records s d) \<le> unat index)
       \<and> (unat index < length (records s d) \<longrightarrow>
            getEncryptedRecord s d index = Inr (records s d ! unat index))
       \<and> (\<forall>sender encryptedValue valueProof v s' cs'.
            storeValue F sender d encryptedValue valueProof s = Inr s'
            \<and> fromExternalEuint32 F sender encryptedValue valueProof = Some v
            \<and> unat index = length (records s d) \<longrightarrow>
            getEncryptedRecord (run F cs' s') d index = Inr v)"
proof -
  have c: "consistent s"
    using assms(1) by (simp add: consistent_reachable)
  have later: "getEncryptedRecord (run F cs' s') d index = Inr v"
    if st: "storeValue F sender d encryptedValue valueProof s = Inr s'"
      and v: "fromExternalEuint32 F sender encryptedValue valueProof = Some v"
      and idx: "unat index = length (records s d)"
    for sender encryptedValue valueProof v s' cs'
  proof -
    from st v have r: "records s' d = records s d @ [v]" and db: "databases s' d = databases s d"
      by (auto elim!: storeValue_Inr)
    have c': "consistent s'"
      using c st by (rule consistent_storeValue)
    have e': "databaseExists s' d"
      using assms(2) db by (simp add: databaseExists_def)
    have "prefix (records s' d) (records (run F cs' s') d)"
      using run_grows [of s' d F cs'] by simp
    then obtain ys where "records (run F cs' s') d = records s d @ v # ys"
      by (auto simp: r prefix_def)
    moreover have "databaseExists (run F cs' s') d"
      using c' e' by (rule run_keeps_existing)
    ultimately show ?thesis
      by (simp add: getEncryptedRecord_def idx)
  qed
  have "getEncryptedRecord s d index = Inl IndexOutOfRange
          \<longleftrightarrow> length (records s d) \<le> unat index"
    using assms(2) by (auto simp: getEncryptedRecord_def)
  moreover have "unat index < length (records s d) \<longrightarrow>
          getEncryptedRecord s d index = Inr (records s d ! unat index)"
    using assms(2) by (simp add: getEncryptedRecord_def)
  ultimately show ?thesis
    using later by blast
qed

theorem getEncryptedRecord_result_witness:
  "databaseExists (run demoFHE [CreateDatabase 0xA 7 ''ops'' 5 [1], StoreValue 0xA 1 9 [1]] init) 1
   \<and> length (records
        (run demoFHE [CreateDatabase 0xA 7 ''ops'' 5 [1], StoreValue 0xA 1 9 [1]] init) 1) = 1
   \<and> getEncryptedRecord
        (run demoFHE [CreateDatabase 0xA 7 ''ops'' 5 [1], StoreValue 0xA 1 9 [1]] init) 1 99
       = Inl IndexOutOfRange
   \<and> getEncryptedRecord
        (run demoFHE [CreateDatabase 0xA 7 ''ops'' 5 [1], StoreValue 0xA 1 9 [1]] init) 1 1
       = Inl IndexOutOfRange
   \<and> getEncryptedRecord
        (run demoFHE [CreateDatabase 0xA 7 ''ops'' 5 [1], StoreValue 0xA 1 9 [1]] init) 1 0
       = Inr 9
   \<and> getEncryptedRecord
        (run demoFHE [StoreValue 0xA 1 8 [1], GrantAccess 0xA 1 0xB, StoreValue 0xB 1 7 [1]]
          (run demoFHE [CreateDatabase 0xA 7 ''ops'' 5 [1], StoreValue 0xA 1 9 [1]] init)) 1 1
       = Inr 8"
  using getEncryptedRecord_result
      [OF refl, where F = demoFHE and d = 1 and index = 99
        and cs = "[CreateDatabase 0xA 7 ''ops'' 5 [1], StoreValue 0xA 1 9 [1]]"]
    getEncryptedRecord_result
      [OF refl, where F = demoFHE and d = 1 and index = 0
        and cs = "[CreateDatabase 0xA 7 ''ops'' 5 [1], StoreValue 0xA 1 9 [1]]"]
    getEncryptedRecord_result
      [OF refl, where F = demoFHE and d = 1 and index = 1
        and cs = "[CreateDatabase 0xA 7 ''ops'' 5 [1], StoreValue 0xA 1 9 [1]]"]
  by (simp add: vault_defs view_defs)

end
